theory Spec2Isabelle
  imports Main "HOL-Library.Sublist"
begin

section \<open>Python strings\<close>

text \<open>
  The validator of \<^verbatim>\<open>validate_skill.py\<close> works on Python \<^verbatim>\<open>str\<close> values. A string is
  modelled as a \<^typ>\<open>string\<close> whose characters stand for the code points 0 to 255, so
  \<^const>\<open>length\<close> is Python's \<^verbatim>\<open>len\<close>. The character classes below are the ones
  Python uses on that range.
\<close>

definition ord :: "char \<Rightarrow> nat" where
  "ord c = of_char c"

definition newline :: char where
  "newline = CHR 0x0A"

definition apostrophe :: char where
  "apostrophe = CHR 0x27"

text \<open>\<^verbatim>\<open>str.isspace\<close> on one character: what \<^verbatim>\<open>str.strip()\<close> removes.\<close>

definition is_space :: "char \<Rightarrow> bool" where
  "is_space c = (let n = ord c in
     (9 \<le> n \<and> n \<le> 13) \<or> (28 \<le> n \<and> n \<le> 32) \<or> n = 133 \<or> n = 160)"

text \<open>The class \<^verbatim>\<open>\w\<close> of \<^verbatim>\<open>re\<close> on a \<^verbatim>\<open>str\<close> pattern: alphanumeric or underscore.\<close>

definition is_word :: "char \<Rightarrow> bool" where
  "is_word c = (let n = ord c in
     (48 \<le> n \<and> n \<le> 57) \<or> (65 \<le> n \<and> n \<le> 90) \<or> n = 95 \<or> (97 \<le> n \<and> n \<le> 122) \<or>
     n = 170 \<or> n = 178 \<or> n = 179 \<or> n = 181 \<or> n = 185 \<or> n = 186 \<or>
     (188 \<le> n \<and> n \<le> 190) \<or> (192 \<le> n \<and> n \<le> 214) \<or> (216 \<le> n \<and> n \<le> 246) \<or>
     (248 \<le> n \<and> n \<le> 255))"

text \<open>\<^verbatim>\<open>str.lower\<close> on one character; the same folding \<^verbatim>\<open>re.IGNORECASE\<close> applies.\<close>

definition lower_char :: "char \<Rightarrow> char" where
  "lower_char c = (let n = ord c in
     if (65 \<le> n \<and> n \<le> 90) \<or> (192 \<le> n \<and> n \<le> 214) \<or> (216 \<le> n \<and> n \<le> 222)
     then char_of (n + 32) else c)"

definition lower :: "string \<Rightarrow> string" where
  "lower s = map lower_char s"

definition lstrip :: "string \<Rightarrow> string" where
  "lstrip s = dropWhile is_space s"

definition rstrip :: "string \<Rightarrow> string" where
  "rstrip s = rev (dropWhile is_space (rev s))"

definition strip :: "string \<Rightarrow> string" where
  "strip s = rstrip (lstrip s)"

text \<open>\<^verbatim>\<open>s.split(sep)\<close> for a one-character separator: never the empty list.\<close>

fun split :: "char \<Rightarrow> string \<Rightarrow> string list" where
  "split sep [] = [[]]"
| "split sep (c # cs) =
     (if c = sep then [] # split sep cs
      else (case split sep cs of [] \<Rightarrow> [[c]] | l # ls \<Rightarrow> (c # l) # ls))"

text \<open>\<^verbatim>\<open>line.split(sep, 1)\<close> on a line that contains the separator: the two sides of its first occurrence.\<close>

definition split_once :: "char \<Rightarrow> string \<Rightarrow> string \<times> string" where
  "split_once sep s = (takeWhile (\<lambda>c. c \<noteq> sep) s, tl (dropWhile (\<lambda>c. c \<noteq> sep) s))"

text \<open>\<^verbatim>\<open>sep.join(lines)\<close>.\<close>

fun join :: "string \<Rightarrow> string list \<Rightarrow> string" where
  "join sep [] = []"
| "join sep [l] = l"
| "join sep (l # ls) = l @ sep @ join sep ls"

text \<open>\<^verbatim>\<open>w in s\<close> on strings: \<open>w\<close> occurs in \<open>s\<close> as a contiguous substring.\<close>

fun contains :: "string \<Rightarrow> string \<Rightarrow> bool" where
  "contains w [] = (w = [])"
| "contains w (c # cs) = (prefix w (c # cs) \<or> contains w cs)"

text \<open>\<^verbatim>\<open>str(n)\<close> of a natural number, as an f-string prints it.\<close>

definition digit :: "nat \<Rightarrow> char" where
  "digit d = char_of (48 + d)"

fun str :: "nat \<Rightarrow> string" where
  "str n = (if n < 10 then [digit n] else str (n div 10) @ [digit (n mod 10)])"

declare str.simps [simp del]

section \<open>The regular expressions of the validator\<close>

text \<open>
  The fragment of \<^verbatim>\<open>re\<close> the source's patterns are written in: literal characters,
  \<^verbatim>\<open>\b\<close>, \<^verbatim>\<open>^\<close>, \<^verbatim>\<open>$\<close> and a character set under \<^verbatim>\<open>+\<close>. The flag of
  \<open>match_at\<close>, \<open>search\<close> and \<open>match\<close> is \<^verbatim>\<open>re.IGNORECASE\<close>; no pattern of the source
  that is searched under it has a character set.
\<close>

datatype set_item = Single char | Range char char

datatype re_item = Lit char | WordB | Bol | Eol | Plus bool "set_item list"

fun in_item :: "set_item \<Rightarrow> char \<Rightarrow> bool" where
  "in_item (Single a) c = (c = a)"
| "in_item (Range a b) c = (ord a \<le> ord c \<and> ord c \<le> ord b)"

definition in_set :: "bool \<Rightarrow> set_item list \<Rightarrow> char \<Rightarrow> bool" where
  "in_set negated items c = (list_ex (\<lambda>it. in_item it c) items \<noteq> negated)"

definition word_at :: "string \<Rightarrow> nat \<Rightarrow> bool" where
  "word_at s i = (i < length s \<and> is_word (s ! i))"

definition word_before :: "string \<Rightarrow> nat \<Rightarrow> bool" where
  "word_before s i = (0 < i \<and> i \<le> length s \<and> is_word (s ! (i - 1)))"

text \<open>\<open>match_at ic p s i\<close>: pattern \<open>p\<close> matches in \<open>s\<close> starting at position \<open>i\<close>.\<close>

fun match_at :: "bool \<Rightarrow> re_item list \<Rightarrow> string \<Rightarrow> nat \<Rightarrow> bool" where
  "match_at ic [] s i = True"
| "match_at ic (Lit p # ps) s i =
     (i < length s \<and> (if ic then lower_char (s ! i) = lower_char p else s ! i = p) \<and>
      match_at ic ps s (Suc i))"
| "match_at ic (WordB # ps) s i = (word_before s i \<noteq> word_at s i \<and> match_at ic ps s i)"
| "match_at ic (Bol # ps) s i = (i = 0 \<and> match_at ic ps s i)"
| "match_at ic (Eol # ps) s i =
     ((i = length s \<or> (Suc i = length s \<and> s ! i = newline)) \<and> match_at ic ps s i)"
| "match_at ic (Plus negated items # ps) s i =
     list_ex (\<lambda>n. match_at ic ps s (i + n))
       [1 ..< Suc (length (takeWhile (in_set negated items) (drop i s)))]"

text \<open>\<^verbatim>\<open>re.search\<close> and \<^verbatim>\<open>re.match\<close>, as truth values.\<close>

definition search :: "bool \<Rightarrow> re_item list \<Rightarrow> string \<Rightarrow> bool" where
  "search ic p s = list_ex (match_at ic p s) [0 ..< Suc (length s)]"

definition match :: "bool \<Rightarrow> re_item list \<Rightarrow> string \<Rightarrow> bool" where
  "match ic p s = match_at ic p s 0"

definition lits :: "string \<Rightarrow> re_item list" where
  "lits w = map Lit w"

section \<open>Validation rules\<close>

definition MAX_NAME_LENGTH :: nat where
  "MAX_NAME_LENGTH = 64"

definition MAX_DESCRIPTION_LENGTH :: nat where
  "MAX_DESCRIPTION_LENGTH = 1024"

definition RESERVED_WORDS :: "string list" where
  "RESERVED_WORDS = [''anthropic'', ''claude'']"

text \<open>\<^verbatim>\<open>^[a-z0-9\-]+$\<close>\<close>

definition NAME_PATTERN :: "re_item list" where
  "NAME_PATTERN =
     [Bol, Plus False [Range CHR ''a'' CHR ''z'', Range CHR ''0'' CHR ''9'', Single CHR ''-''], Eol]"

text \<open>\<^verbatim>\<open><[^>]+>\<close>\<close>

definition XML_TAG_PATTERN :: "re_item list" where
  "XML_TAG_PATTERN = [Lit CHR ''<'', Plus True [Single CHR ''>''], Lit CHR ''>'']"

definition delimiter :: string where
  "delimiter = ''---''"

section \<open>Messages\<close>

definition missing_open_msg :: string where
  "missing_open_msg = ''Missing YAML frontmatter (must start with '---')''"

definition unclosed_msg :: string where
  "unclosed_msg = ''YAML frontmatter not properly closed (missing closing '---')''"

definition name_required_msg :: string where
  "name_required_msg = ''name field is required and cannot be empty''"

definition name_length_msg :: "nat \<Rightarrow> string" where
  "name_length_msg n = ''name exceeds maximum length of '' @ str MAX_NAME_LENGTH
     @ '' characters (found '' @ str n @ '')''"

definition name_chars_msg :: string where
  "name_chars_msg = ''name must contain only lowercase letters, numbers, and hyphens''"

definition name_xml_msg :: string where
  "name_xml_msg = ''name cannot contain XML tags''"

definition reserved_msg :: "string \<Rightarrow> string" where
  "reserved_msg word = ''name cannot contain reserved word '' @ [apostrophe] @ word @ [apostrophe]"

definition desc_required_msg :: string where
  "desc_required_msg = ''description field is required and cannot be empty''"

definition desc_length_msg :: "nat \<Rightarrow> string" where
  "desc_length_msg n = ''description exceeds maximum length of '' @ str MAX_DESCRIPTION_LENGTH
     @ '' characters (found '' @ str n @ '')''"

definition desc_xml_msg :: string where
  "desc_xml_msg = ''description cannot contain XML tags''"

definition first_person_msg :: string where
  "first_person_msg =
     ''description should use third person, not first person (avoid 'I', 'my', 'me')''"

definition second_person_msg :: string where
  "second_person_msg =
     ''description should use third person, not second person (avoid 'you', 'your')''"

definition when_msg :: string where
  "when_msg = ''description should include 'when to use' guidance (e.g., 'Use when...')''"

definition not_found_msg :: "string \<Rightarrow> string" where
  "not_found_msg filepath = ''File not found: '' @ filepath"

definition filename_msg :: "string \<Rightarrow> string" where
  "filename_msg name =
     ''Skill file should be named 'SKILL.md', found '' @ [apostrophe] @ name @ [apostrophe]"

definition read_error_msg :: "string \<Rightarrow> string" where
  "read_error_msg e = ''Error reading file: '' @ e"

definition body_msg :: "nat \<Rightarrow> string" where
  "body_msg n = ''SKILL.md body has '' @ str n
     @ '' lines (recommended: under 500). Consider using progressive disclosure with separate reference files.''"

section \<open>Frontmatter extraction and parsing\<close>

text \<open>
  The loop of \<^verbatim>\<open>extract_frontmatter\<close> over \<^verbatim>\<open>lines[1:]\<close>: the second argument is
  \<^verbatim>\<open>frontmatter_lines\<close>; \<open>None\<close> is the loop ending with \<^verbatim>\<open>end_index\<close> still unset.
\<close>

fun scan_close :: "string list \<Rightarrow> string list \<Rightarrow> string list option" where
  "scan_close [] frontmatter_lines = None"
| "scan_close (line # rest) frontmatter_lines =
     (if strip line = delimiter then Some frontmatter_lines
      else scan_close rest (frontmatter_lines @ [line]))"

text \<open>
  \<^verbatim>\<open>extract_frontmatter\<close> returns \<^verbatim>\<open>(None, message)\<close> or \<^verbatim>\<open>(frontmatter, None)\<close>:
  \<open>Inl\<close> the message, \<open>Inr\<close> the frontmatter.
\<close>

definition extract_frontmatter :: "string \<Rightarrow> string + string" where
  "extract_frontmatter content =
     (case split newline content of
        [] \<Rightarrow> Inl missing_open_msg
      | first # rest \<Rightarrow>
          if strip first \<noteq> delimiter then Inl missing_open_msg
          else (case scan_close rest [] of
                  None \<Rightarrow> Inl unclosed_msg
                | Some frontmatter_lines \<Rightarrow> Inr (join [newline] frontmatter_lines)))"

text \<open>The loop of \<^verbatim>\<open>parse_frontmatter\<close>; the dictionary \<^verbatim>\<open>data\<close> is a map.\<close>

fun parse_lines :: "string list \<Rightarrow> (string \<rightharpoonup> string) \<Rightarrow> (string \<rightharpoonup> string)" where
  "parse_lines [] data = data"
| "parse_lines (line # rest) data =
     (if CHR '':'' \<in> set line
      then (case split_once CHR '':'' line of
              (key, val) \<Rightarrow> parse_lines rest (data(strip key \<mapsto> strip val)))
      else parse_lines rest data)"

definition parse_frontmatter :: "string \<Rightarrow> (string \<rightharpoonup> string)" where
  "parse_frontmatter frontmatter = parse_lines (split newline frontmatter) Map.empty"

text \<open>\<^verbatim>\<open>data.get(key, '')\<close>\<close>

definition get :: "(string \<rightharpoonup> string) \<Rightarrow> string \<Rightarrow> string" where
  "get data key = (case data key of None \<Rightarrow> [] | Some v \<Rightarrow> v)"

section \<open>Field validators\<close>

text \<open>The loop over \<^verbatim>\<open>RESERVED_WORDS\<close> in \<^verbatim>\<open>validate_name\<close>.\<close>

fun reserved_errors :: "string \<Rightarrow> string list \<Rightarrow> string list" where
  "reserved_errors name [] = []"
| "reserved_errors name (word # rest) =
     (if contains word (lower name) then [reserved_msg word] else []) @ reserved_errors name rest"

definition validate_name :: "string \<Rightarrow> string list" where
  "validate_name name =
     (if name = [] then [name_required_msg]
      else
        (if length name > MAX_NAME_LENGTH then [name_length_msg (length name)] else []) @
        (if \<not> match False NAME_PATTERN name then [name_chars_msg] else []) @
        (if search False XML_TAG_PATTERN name then [name_xml_msg] else []) @
        reserved_errors name RESERVED_WORDS)"

text \<open>\<^verbatim>\<open>[r'\bI\b', r'\bmy\b', r'\bme\b', r"I'm", r"I'll"]\<close>\<close>

definition first_person_patterns :: "re_item list list" where
  "first_person_patterns =
     [[WordB, Lit CHR ''I'', WordB],
      WordB # lits ''my'' @ [WordB],
      WordB # lits ''me'' @ [WordB],
      lits ''I'm'',
      lits ''I'll'']"

text \<open>\<^verbatim>\<open>[r'\byou\b', r'\byour\b', r'\byou\'re', r'\byou\'ll']\<close>\<close>

definition second_person_patterns :: "re_item list list" where
  "second_person_patterns =
     [WordB # lits ''you'' @ [WordB],
      WordB # lits ''your'' @ [WordB],
      WordB # lits ''you're'',
      WordB # lits ''you'll'']"

text \<open>
  A person loop of \<^verbatim>\<open>validate_description\<close>: every pattern is searched with
  \<^verbatim>\<open>re.IGNORECASE\<close>; the first one found appends the message and breaks.
\<close>

fun person_errors :: "re_item list list \<Rightarrow> string \<Rightarrow> string \<Rightarrow> string list" where
  "person_errors [] description msg = []"
| "person_errors (pattern # rest) description msg =
     (if search True pattern description then [msg] else person_errors rest description msg)"

definition when_phrases :: "string list" where
  "when_phrases = [''use when'', ''when the user'', ''when working'', ''when creating'',
     ''when implementing'', ''when managing'', ''when analyzing'']"

definition has_when_indicator :: "string \<Rightarrow> bool" where
  "has_when_indicator description =
     list_ex (\<lambda>phrase. contains phrase (lower description)) when_phrases"

definition validate_description :: "string \<Rightarrow> string list" where
  "validate_description description =
     (if description = [] then [desc_required_msg]
      else
        (if length description > MAX_DESCRIPTION_LENGTH
         then [desc_length_msg (length description)] else []) @
        (if search False XML_TAG_PATTERN description then [desc_xml_msg] else []) @
        person_errors first_person_patterns description first_person_msg @
        person_errors second_person_patterns description second_person_msg @
        (if \<not> has_when_indicator description then [when_msg] else []))"

section \<open>Body line count\<close>

text \<open>
  The loop of \<^verbatim>\<open>count_lines\<close>: the lines still to visit, the index \<open>i\<close> of the next one
  and \<^verbatim>\<open>frontmatter_count\<close>; the result is \<^verbatim>\<open>start_index\<close>, still 0 when the loop ends
  without a second delimiter line.
\<close>

fun body_start :: "string list \<Rightarrow> nat \<Rightarrow> nat \<Rightarrow> nat" where
  "body_start [] i frontmatter_count = 0"
| "body_start (line # rest) i frontmatter_count =
     (if strip line = delimiter
      then (if frontmatter_count + 1 = 2 then i + 1
            else body_start rest (i + 1) (frontmatter_count + 1))
      else body_start rest (i + 1) frontmatter_count)"

definition count_lines :: "string \<Rightarrow> nat" where
  "count_lines content =
     (let lines = split newline content;
          start_index = body_start lines 0 0;
          body_lines = drop start_index lines
      in length (filter (\<lambda>line. strip line \<noteq> []) body_lines))"

section \<open>The orchestrator\<close>

text \<open>
  What \<^verbatim>\<open>validate_skill\<close> observes of the file system through \<^verbatim>\<open>pathlib\<close>:
  \<^verbatim>\<open>path.exists()\<close>, \<^verbatim>\<open>path.name\<close>, and \<^verbatim>\<open>path.read_text()\<close>, which is \<open>Inl\<close> the text
  of the exception raised or \<open>Inr\<close> the content read.
\<close>

record path =
  exists :: bool
  name :: string
  read_text :: "string + string"

definition validate_skill :: "string \<Rightarrow> path \<Rightarrow> string list \<times> string list" where
  "validate_skill filepath path =
     (if \<not> exists path then ([not_found_msg filepath], [])
      else
        let warnings = (if name path \<noteq> ''SKILL.md'' then [filename_msg (name path)] else [])
        in case read_text path of
             Inl e \<Rightarrow> ([read_error_msg e], [])
           | Inr content \<Rightarrow>
               (case extract_frontmatter content of
                  Inl error \<Rightarrow> ([error], [])
                | Inr frontmatter \<Rightarrow>
                    let data = parse_frontmatter frontmatter;
                        errors = validate_name (get data ''name'')
                                 @ validate_description (get data ''description'');
                        line_count = count_lines content;
                        warnings = warnings @ (if line_count > 500 then [body_msg line_count] else [])
                    in (errors, warnings)))"

section \<open>Notions of the specification\<close>

text \<open>The first line of a document: the text before its first line break.\<close>

definition first_line :: "string \<Rightarrow> string" where
  "first_line content = takeWhile (\<lambda>c. c \<noteq> newline) content"

text \<open>A line is a delimiter line when it is the delimiter token after trimming.\<close>

definition delimiter_line :: "string \<Rightarrow> bool" where
  "delimiter_line line = (strip line = delimiter)"

text \<open>A line is blank when nothing is left of it after trimming.\<close>

definition blank :: "string \<Rightarrow> bool" where
  "blank line = (strip line = [])"

text \<open>
  A document is well formed with header lines \<open>header\<close> and body lines \<open>body\<close>: its first
  line is a delimiter line, \<open>header\<close> holds no delimiter line, the line after \<open>header\<close> is
  the second delimiter line, and \<open>body\<close> is every line after that one.
\<close>

definition well_formed :: "string \<Rightarrow> string list \<Rightarrow> string list \<Rightarrow> bool" where
  "well_formed content header body =
     (case split newline content of
        [] \<Rightarrow> False
      | opener # rest \<Rightarrow>
          delimiter_line opener \<and> list_all (\<lambda>l. \<not> delimiter_line l) header \<and>
          length header < length rest \<and> take (length header) rest = header \<and>
          delimiter_line (rest ! length header) \<and> drop (Suc (length header)) rest = body)"

text \<open>
  A header line assigns the value \<open>v\<close> to the key \<open>k\<close>: it has a colon, and the text
  before and the text after its first colon are \<open>k\<close> and \<open>v\<close> once trimmed.
\<close>

definition assigns :: "string \<Rightarrow> string \<Rightarrow> string \<Rightarrow> bool" where
  "assigns line k v =
     (\<exists>a b. line = a @ CHR '':'' # b \<and> CHR '':'' \<notin> set a \<and> strip a = k \<and> strip b = v)"

text \<open>
  The part of \<open>s\<close> from position \<open>i\<close> to position \<open>j\<close> is tag shaped: it starts with
  \<open><\<close>, ends with \<open>>\<close> and has no \<open>>\<close> in between.
\<close>

definition tag_shaped :: "string \<Rightarrow> nat \<Rightarrow> nat \<Rightarrow> bool" where
  "tag_shaped s i j =
     (i < j \<and> j < length s \<and> s ! i = CHR ''<'' \<and> s ! j = CHR ''>'' \<and>
      CHR ''>'' \<notin> set (take (j - Suc i) (drop (Suc i) s)))"

text \<open>A lowercase ASCII letter, a digit or a hyphen.\<close>

definition name_char :: "char \<Rightarrow> bool" where
  "name_char c = (c \<in> set ''abcdefghijklmnopqrstuvwxyz0123456789-'')"

text \<open>The word \<open>w\<close> occurs in \<open>s\<close> at position \<open>i\<close>, upper and lower case not told apart.\<close>

definition occurs_at :: "string \<Rightarrow> nat \<Rightarrow> string \<Rightarrow> bool" where
  "occurs_at s i w = (lower (take (length w) (drop i s)) = lower w)"

text \<open>The same, with no word character next to the occurrence on either side.\<close>

definition occurs_as_word :: "string \<Rightarrow> nat \<Rightarrow> string \<Rightarrow> bool" where
  "occurs_as_word s i w =
     (occurs_at s i w \<and> \<not> word_before s i \<and> \<not> word_at s (i + length w))"

text \<open>The same, with no word character before the occurrence.\<close>

definition occurs_at_word_start :: "string \<Rightarrow> nat \<Rightarrow> string \<Rightarrow> bool" where
  "occurs_at_word_start s i w = (occurs_at s i w \<and> \<not> word_before s i)"

section \<open>Example documents\<close>

definition example_header :: "string list" where
  "example_header =
     [''name: pdf-tools'',
      ''description: Extracts text from PDF files. Use when reading PDF documents.'']"

definition example_skill :: string where
  "example_skill = join [newline] (''---'' # example_header @ [''---'', ''# PDF tools'', [], ''Run the script.''])"

definition unclosed_skill :: string where
  "unclosed_skill = join [newline] [''---'', ''name: pdf-tools'', ''# PDF tools'']"


definition duplicate_header :: string where
  "duplicate_header = join [newline] [''name: first'', ''no colon here'', ''name : second '']"

definition skill_file :: "string \<Rightarrow> string \<Rightarrow> path" where
  "skill_file basename content = \<lparr>exists = True, name = basename, read_text = Inr content\<rparr>"

section \<open>Lines, extraction and counting\<close>

lemma split_not_Nil: "split sep s \<noteq> []"
  by (induction s) (auto split: list.splits)

lemma hd_split: "hd (split sep s) = takeWhile (\<lambda>c. c \<noteq> sep) s"
  by (induction s) (auto split: list.splits simp: split_not_Nil)

lemma split_Cons_line:
  "sep \<notin> set l \<Longrightarrow> split sep (l @ sep # s) = l # split sep s"
  by (induction l) (auto split: list.splits)

lemma split_no_sep: "sep \<notin> set l \<Longrightarrow> split sep l = [l]"
  by (induction l) (auto split: list.splits)

lemma join_Cons: "ls \<noteq> [] \<Longrightarrow> join sep (l # ls) = l @ sep @ join sep ls"
  by (cases ls) auto

lemma split_join:
  "ls \<noteq> [] \<Longrightarrow> \<forall>l\<in>set ls. sep \<notin> set l \<Longrightarrow> split sep (join [sep] ls) = ls"
proof (induction ls)
  case Nil
  then show ?case by simp
next
  case (Cons l ls)
  show ?case
  proof (cases "ls = []")
    case True
    with Cons.prems show ?thesis by (simp add: split_no_sep)
  next
    case False
    with Cons show ?thesis by (simp add: join_Cons split_Cons_line)
  qed
qed

lemma strip_delimiter [simp]: "strip delimiter = delimiter"
  by (simp add: strip_def lstrip_def rstrip_def delimiter_def is_space_def ord_def)

lemma strip_Nil [simp]: "strip [] = []"
  by (simp add: strip_def lstrip_def rstrip_def)

lemma scan_close_closed:
  "\<forall>l\<in>set header. strip l \<noteq> delimiter \<Longrightarrow> strip closer = delimiter \<Longrightarrow>
   scan_close (header @ closer # body) acc = Some (acc @ header)"
  by (induction header arbitrary: acc) auto

lemma scan_close_None:
  "(scan_close ls acc = None) = (\<forall>l\<in>set ls. strip l \<noteq> delimiter)"
  by (induction ls arbitrary: acc) auto

lemma extract_frontmatter_closed:
  assumes "split newline content = opener # header @ closer # body"
    and "strip opener = delimiter" and "\<forall>l\<in>set header. strip l \<noteq> delimiter"
    and "strip closer = delimiter"
  shows "extract_frontmatter content = Inr (join [newline] header)"
  using assms by (simp add: extract_frontmatter_def scan_close_closed)

lemma body_start_closed:
  "\<forall>l\<in>set header. strip l \<noteq> delimiter \<Longrightarrow> strip closer = delimiter \<Longrightarrow>
   body_start (header @ closer # body) i 1 = i + length header + 1"
  by (induction header arbitrary: i) auto

lemma count_lines_closed:
  assumes "split newline content = opener # header @ closer # body"
    and "strip opener = delimiter" and "\<forall>l\<in>set header. strip l \<noteq> delimiter"
    and "strip closer = delimiter"
  shows "count_lines content = length (filter (\<lambda>line. strip line \<noteq> []) body)"
proof -
  have "body_start (opener # header @ closer # body) 0 0 = length header + 2"
    using assms(2-4) body_start_closed [of header closer body 1] by simp
  then show ?thesis
    by (simp add: count_lines_def assms(1))
qed


lemma well_formed_iff:
  "well_formed content header body =
     (\<exists>opener closer. split newline content = opener # header @ closer # body \<and>
        delimiter_line opener \<and> (\<forall>l\<in>set header. \<not> delimiter_line l) \<and> delimiter_line closer)"
proof
  assume wf: "well_formed content header body"
  then obtain opener rest where sp: "split newline content = opener # rest"
    by (auto simp: well_formed_def split: list.splits)
  with wf have h: "delimiter_line opener" "\<forall>l\<in>set header. \<not> delimiter_line l"
    "length header < length rest" "take (length header) rest = header"
    "delimiter_line (rest ! length header)" "drop (Suc (length header)) rest = body"
    by (auto simp: well_formed_def list_all_iff)
  have "rest = take (length header) rest @ rest ! length header # drop (Suc (length header)) rest"
    using h(3) by (simp add: id_take_nth_drop [symmetric])
  then have "rest = header @ rest ! length header # body"
    using h(4,6) by simp
  with sp h show "\<exists>opener closer. split newline content = opener # header @ closer # body \<and>
        delimiter_line opener \<and> (\<forall>l\<in>set header. \<not> delimiter_line l) \<and> delimiter_line closer"
    by metis
next
  assume "\<exists>opener closer. split newline content = opener # header @ closer # body \<and>
        delimiter_line opener \<and> (\<forall>l\<in>set header. \<not> delimiter_line l) \<and> delimiter_line closer"
  then show "well_formed content header body"
    by (auto simp: well_formed_def list_all_iff nth_append)
qed

lemma well_formed_extract:
  assumes "well_formed content header body"
  shows "extract_frontmatter content = Inr (join [newline] header)"
  using assms extract_frontmatter_closed unfolding well_formed_iff delimiter_line_def by blast

lemma well_formed_count:
  assumes "well_formed content header body"
  shows "count_lines content = length (filter (\<lambda>l. \<not> blank l) body)"
  using assms count_lines_closed unfolding well_formed_iff delimiter_line_def blank_def by blast

lemma well_formed_join:
  assumes "delimiter_line opener" and "\<forall>l\<in>set header. \<not> delimiter_line l"
    and "delimiter_line closer"
    and "\<forall>l\<in>set (opener # header @ closer # body). newline \<notin> set l"
  shows "well_formed (join [newline] (opener # header @ closer # body)) header body"
proof -
  have "split newline (join [newline] (opener # header @ closer # body))
        = opener # header @ closer # body"
    using assms(4) by (intro split_join) auto
  with assms(1-3) show ?thesis unfolding well_formed_iff by blast
qed

lemma delimiter_line_simps [simp]:
  "delimiter_line ''---''"
  by (simp add: delimiter_line_def strip_def lstrip_def rstrip_def delimiter_def is_space_def ord_def)

text \<open>
  Claim C1. For every document whose first line, after trimming, is not the delimiter token
  (the empty document included), validating the file that holds it returns exactly the
  missing-open-delimiter error and no warning.
\<close>
theorem missing_open_delimiter:
  assumes "exists p" and "read_text p = Inr content"
    and "\<not> delimiter_line (first_line content)"
  shows "validate_skill filepath p = ([missing_open_msg], [])"
proof -
  obtain first rest where sp: "split newline content = first # rest"
    using split_not_Nil [of newline content] by (cases "split newline content") auto
  then have "first = first_line content"
    using hd_split [of newline content] by (simp add: first_line_def)
  with assms(3) have "extract_frontmatter content = Inl missing_open_msg"
    by (simp add: extract_frontmatter_def sp delimiter_line_def)
  with assms(1,2) show ?thesis
    by (simp add: validate_skill_def Let_def)
qed

theorem missing_open_delimiter_witness:
  "validate_skill ''docs/README.md'' (skill_file ''README.md'' ''# PDF tools'') = ([missing_open_msg], []) \<and>
   validate_skill ''SKILL.md'' (skill_file ''SKILL.md'' []) = ([missing_open_msg], [])"
proof -
  have a: "\<not> delimiter_line (first_line ''# PDF tools'')"
    by (simp add: delimiter_line_def first_line_def newline_def strip_def lstrip_def rstrip_def
        delimiter_def is_space_def ord_def)
  have b: "\<not> delimiter_line (first_line [])"
    by (simp add: delimiter_line_def first_line_def strip_def lstrip_def rstrip_def delimiter_def)
  show ?thesis
    using missing_open_delimiter [of "skill_file ''README.md'' ''# PDF tools''" "''# PDF tools''" "''docs/README.md''", OF _ _ a]
      missing_open_delimiter [of "skill_file ''SKILL.md'' []" "[]" "''SKILL.md''", OF _ _ b]
    by (simp add: skill_file_def)
qed

text \<open>
  Claim C9. When frontmatter extraction fails for a file whose basename is not
  \<^verbatim>\<open>SKILL.md\<close>, the warnings returned are empty: the filename warning recorded before
  the extraction does not reach the caller.
\<close>
theorem filename_warning_discarded:
  assumes "exists p" and "read_text p = Inr content"
    and "extract_frontmatter content = Inl error"
    and "name p \<noteq> ''SKILL.md''"
  shows "validate_skill filepath p = ([error], []) \<and> snd (validate_skill filepath p) = []"
  using assms by (simp add: validate_skill_def Let_def)

lemma extract_unclosed_skill: "extract_frontmatter unclosed_skill = Inl unclosed_msg"
  by (simp add: unclosed_skill_def extract_frontmatter_def newline_def strip_def lstrip_def
      rstrip_def delimiter_def is_space_def ord_def)

theorem filename_warning_discarded_witness:
  "validate_skill ''notes.md'' (skill_file ''notes.md'' unclosed_skill) = ([unclosed_msg], []) \<and>
   snd (validate_skill ''notes.md'' (skill_file ''notes.md'' unclosed_skill)) = []"
  using filename_warning_discarded [of "skill_file ''notes.md'' unclosed_skill" unclosed_skill unclosed_msg "''notes.md''"]
    extract_unclosed_skill
  by (simp add: skill_file_def)

text \<open>
  Claim C6. For the name and for the description, an empty field value (the default of
  an absent key) gives exactly one error, the one saying the field is required.
\<close>
theorem empty_field_required_only:
  "validate_name [] = [name_required_msg] \<and>
   validate_description [] = [desc_required_msg] \<and>
   (data ''name'' = None \<longrightarrow> validate_name (get data ''name'') = [name_required_msg]) \<and>
   (data ''description'' = None \<longrightarrow>
      validate_description (get data ''description'') = [desc_required_msg])"
  by (simp add: validate_name_def validate_description_def get_def)

theorem empty_field_required_only_witness:
  "validate_name (get Map.empty ''name'') = [name_required_msg] \<and>
   validate_description (get Map.empty ''description'') = [desc_required_msg] \<and>
   \<not> has_when_indicator []"
  using empty_field_required_only [of Map.empty]
  by (simp add: has_when_indicator_def when_phrases_def lower_def)



lemma example_header_lines:
  "\<forall>l\<in>set example_header. \<not> delimiter_line l \<and> newline \<notin> set l"
  by (simp add: example_header_def delimiter_line_def newline_def strip_def lstrip_def
      rstrip_def delimiter_def is_space_def ord_def)




section \<open>The key/value parser\<close>

lemma split_once_first:
  "sep \<notin> set a \<Longrightarrow> split_once sep (a @ sep # b) = (a, b)"
  by (induction a) (auto simp: split_once_def)

lemma assigns_colon: "assigns line k v \<Longrightarrow> CHR '':'' \<in> set line"
  unfolding assigns_def by auto

lemma assigns_split_once:
  "assigns line k v =
     (CHR '':'' \<in> set line \<and> strip (fst (split_once CHR '':'' line)) = k \<and>
      strip (snd (split_once CHR '':'' line)) = v)"
proof
  assume "assigns line k v"
  then obtain a b where "line = a @ CHR '':'' # b" "CHR '':'' \<notin> set a" "strip a = k" "strip b = v"
    unfolding assigns_def by blast
  then show "CHR '':'' \<in> set line \<and> strip (fst (split_once CHR '':'' line)) = k \<and>
      strip (snd (split_once CHR '':'' line)) = v"
    by (simp add: split_once_first)
next
  assume r: "CHR '':'' \<in> set line \<and> strip (fst (split_once CHR '':'' line)) = k \<and>
      strip (snd (split_once CHR '':'' line)) = v"
  then obtain a b where l: "line = a @ CHR '':'' # b" "CHR '':'' \<notin> set a"
    by (meson split_list_first)
  then have "split_once CHR '':'' line = (a, b)" by (simp add: split_once_first)
  with r have "strip a = k" "strip b = v" by simp_all
  with l show "assigns line k v" unfolding assigns_def by blast
qed

lemma parse_lines_step:
  "parse_lines (line # ls) data =
     (if CHR '':'' \<in> set line
      then parse_lines ls (data(strip (fst (split_once CHR '':'' line)) \<mapsto>
                                 strip (snd (split_once CHR '':'' line))))
      else parse_lines ls data)"
  by (simp add: case_prod_beta)

lemma parse_lines_untouched:
  "\<forall>l\<in>set ls. \<forall>v. \<not> assigns l k v \<Longrightarrow> parse_lines ls data k = data k"
proof (induction ls arbitrary: data)
  case Nil
  then show ?case by simp
next
  case (Cons line ls)
  from Cons.prems have no: "\<forall>v. \<not> assigns line k v" and rest: "\<forall>l\<in>set ls. \<forall>v. \<not> assigns l k v"
    by simp_all
  show ?case
  proof (cases "CHR '':'' \<in> set line")
    case True
    let ?k = "strip (fst (split_once CHR '':'' line))"
    let ?v = "strip (snd (split_once CHR '':'' line))"
    from no True have "?k \<noteq> k" by (simp add: assigns_split_once)
    then have "(data(?k \<mapsto> ?v)) k = data k" by simp
    with Cons.IH [OF rest, of "data(?k \<mapsto> ?v)"] True show ?thesis
      by (simp only: parse_lines_step if_True)
  next
    case False
    with Cons.IH [OF rest, of data] show ?thesis by (simp only: parse_lines_step if_False)
  qed
qed

lemma parse_lines_append:
  "parse_lines (xs @ ys) data = parse_lines ys (parse_lines xs data)"
proof (induction xs arbitrary: data)
  case Nil
  then show ?case by simp
next
  case (Cons x xs)
  show ?case
    by (cases "CHR '':'' \<in> set x")
      (simp_all only: append_Cons parse_lines_step if_True if_False Cons.IH)
qed

lemma parse_lines_Some:
  "parse_lines ls data k = Some v \<Longrightarrow> data k = Some v \<or> (\<exists>l\<in>set ls. assigns l k v)"
proof (induction ls arbitrary: data)
  case Nil
  then show ?case by simp
next
  case (Cons line ls)
  show ?case
  proof (cases "CHR '':'' \<in> set line")
    case True
    let ?k = "strip (fst (split_once CHR '':'' line))"
    let ?v = "strip (snd (split_once CHR '':'' line))"
    from Cons.prems True have "parse_lines ls (data(?k \<mapsto> ?v)) k = Some v"
      by (simp only: parse_lines_step if_True)
    from Cons.IH [OF this] have "(data(?k \<mapsto> ?v)) k = Some v \<or> (\<exists>l\<in>set ls. assigns l k v)" .
    then show ?thesis
    proof
      assume u: "(data(?k \<mapsto> ?v)) k = Some v"
      show ?thesis
      proof (cases "?k = k")
        case True
        with u have "?v = v" by simp
        with True \<open>CHR '':'' \<in> set line\<close> have "assigns line k v" by (simp add: assigns_split_once)
        then show ?thesis by simp
      next
        case False
        with u show ?thesis by simp
      qed
    next
      assume "\<exists>l\<in>set ls. assigns l k v"
      then show ?thesis by simp
    qed
  next
    case False
    with Cons.prems have "parse_lines ls data k = Some v" by (simp only: parse_lines_step if_False)
    from Cons.IH [OF this] show ?thesis by auto
  qed
qed

text \<open>
  Claim C5. The key/value parser is total. A line that assigns a key, followed only by
  lines that do not assign that key, decides the value stored for it (the last
  occurrence wins); a key no line assigns is absent; and a stored value always comes
  from a line with a colon, split at its first colon with both sides trimmed.
\<close>

theorem parse_frontmatter_last_wins:
  "(split newline fm = before @ line # after \<and> assigns line k v \<and>
      (\<forall>l\<in>set after. \<forall>v'. \<not> assigns l k v') \<longrightarrow> parse_frontmatter fm k = Some v) \<and>
   ((\<forall>l\<in>set (split newline fm). \<forall>v'. \<not> assigns l k v') \<longrightarrow> parse_frontmatter fm k = None) \<and>
   (parse_frontmatter fm k = Some v \<longrightarrow> (\<exists>l\<in>set (split newline fm). assigns l k v))"
proof (intro conjI impI)
  assume h: "split newline fm = before @ line # after \<and> assigns line k v \<and>
      (\<forall>l\<in>set after. \<forall>v'. \<not> assigns l k v')"
  then have c: "CHR '':'' \<in> set line" and kv: "strip (fst (split_once CHR '':'' line)) = k"
    "strip (snd (split_once CHR '':'' line)) = v"
    by (simp_all add: assigns_split_once)
  have "parse_frontmatter fm = parse_lines (line # after) (parse_lines before Map.empty)"
    using h by (simp only: parse_frontmatter_def parse_lines_append)
  also have "\<dots> = parse_lines after ((parse_lines before Map.empty)(k \<mapsto> v))"
    using c kv by (simp only: parse_lines_step if_True)
  finally show "parse_frontmatter fm k = Some v"
    using h parse_lines_untouched [of after k] by simp
next
  assume "\<forall>l\<in>set (split newline fm). \<forall>v'. \<not> assigns l k v'"
  then show "parse_frontmatter fm k = None"
    by (simp add: parse_frontmatter_def parse_lines_untouched)
next
  assume "parse_frontmatter fm k = Some v"
  then show "\<exists>l\<in>set (split newline fm). assigns l k v"
    using parse_lines_Some [of "split newline fm" Map.empty k v]
    by (simp add: parse_frontmatter_def)
qed


lemma split_duplicate_header:
  "split newline duplicate_header = [''name: first'', ''no colon here''] @ ''name : second '' # []"
  by (simp add: duplicate_header_def newline_def)

lemma strip_examples:
  "strip ''name '' = ''name''" "strip '' second '' = ''second''"
  by (simp_all add: strip_def lstrip_def rstrip_def is_space_def ord_def)

theorem parse_frontmatter_last_wins_witness:
  "parse_frontmatter duplicate_header ''name'' = Some ''second'' \<and>
   parse_frontmatter duplicate_header ''no colon here'' = None"
proof -
  have a: "assigns ''name : second '' ''name'' ''second''"
    unfolding assigns_def using strip_examples
    by (intro exI [of _ "''name ''"] exI [of _ "'' second ''"]) simp
  have b: "\<forall>l\<in>set (split newline duplicate_header). \<forall>v'. \<not> assigns l ''no colon here'' v'"
    by (simp add: split_duplicate_header assigns_split_once split_once_def strip_def lstrip_def
        rstrip_def is_space_def ord_def)
  show ?thesis
    using parse_frontmatter_last_wins [of duplicate_header "[''name: first'', ''no colon here'']" "''name : second ''" "[]"
        "''name''" "''second''"]
      parse_frontmatter_last_wins [of duplicate_header _ _ _ "''no colon here''"]
      split_duplicate_header a b
    by simp
qed

section \<open>Characters\<close>

lemma ord_less_256: "ord c < 256"
  by (simp add: ord_def)

lemma ord_eq_iff: "(ord a = ord b) = (a = b)"
  by (simp add: ord_def)

lemma ord_lower_char:
  "ord (lower_char c) =
     (if (65 \<le> ord c \<and> ord c \<le> 90) \<or> (192 \<le> ord c \<and> ord c \<le> 214) \<or> (216 \<le> ord c \<and> ord c \<le> 222)
      then ord c + 32 else ord c)"
proof -
  have "ord c + 32 < 256" if "ord c \<le> 222" using that by simp
  then show ?thesis
    by (auto simp: lower_char_def Let_def ord_def)
qed

lemma is_word_lower_char: "is_word (lower_char c) = is_word c"
  unfolding is_word_def Let_def ord_lower_char by (simp split: if_splits)

lemma lower_char_idem: "lower_char (lower_char c) = lower_char c"
proof -
  have "ord (lower_char (lower_char c)) = ord (lower_char c)"
    unfolding ord_lower_char [of "lower_char c"] unfolding ord_lower_char [of c]
    by (simp split: if_splits)
  then show ?thesis by (simp only: ord_eq_iff)
qed

lemma lower_idem: "lower (lower s) = lower s"
  by (simp add: lower_def lower_char_idem)

lemma same_fold_is_word: "lower_char a = lower_char b \<Longrightarrow> is_word a = is_word b"
  by (metis is_word_lower_char)


section \<open>Matching\<close>

lemma search_iff: "search ic p s = (\<exists>i\<le>length s. match_at ic p s i)"
proof -
  have "set [0 ..< Suc (length s)] = {i. i \<le> length s}" by auto
  then show ?thesis unfolding search_def list_ex_iff by blast
qed

lemma occurs_at_Nil [simp]: "occurs_at s i []"
  by (simp add: occurs_at_def lower_def)

lemma occurs_at_Cons:
  "occurs_at s i (c # w) =
     (i < length s \<and> lower_char (s ! i) = lower_char c \<and> occurs_at s (Suc i) w)"
proof (cases "i < length s")
  case True
  then have "drop i s = s ! i # drop (Suc i) s"
    by (simp add: Cons_nth_drop_Suc)
  with True show ?thesis by (simp add: occurs_at_def lower_def)
next
  case False
  then show ?thesis by (simp add: occurs_at_def lower_def)
qed

lemma occurs_at_bound: "occurs_at s i w \<Longrightarrow> w \<noteq> [] \<Longrightarrow> i + length w \<le> length s"
proof (induction w arbitrary: i)
  case Nil
  then show ?case by simp
next
  case (Cons c w)
  then have i: "i < length s" and r: "occurs_at s (Suc i) w"
    by (simp_all add: occurs_at_Cons)
  show ?case
  proof (cases "w = []")
    case True
    with i show ?thesis by simp
  next
    case False
    with Cons.IH [OF r] show ?thesis by simp
  qed
qed

lemma occurs_at_nth:
  "occurs_at s i w \<Longrightarrow> k < length w \<Longrightarrow>
   i + k < length s \<and> lower_char (s ! (i + k)) = lower_char (w ! k)"
proof (induction w arbitrary: i k)
  case Nil
  then show ?case by simp
next
  case (Cons c w)
  then have i: "i < length s" "lower_char (s ! i) = lower_char c" and r: "occurs_at s (Suc i) w"
    by (simp_all add: occurs_at_Cons)
  show ?case
  proof (cases k)
    case 0
    with i show ?thesis by simp
  next
    case (Suc k')
    with Cons.prems have "k' < length w" by simp
    from Cons.IH [OF r this] Suc show ?thesis by simp
  qed
qed

lemma match_lits:
  "match_at True (lits w @ rest) s i = (occurs_at s i w \<and> match_at True rest s (i + length w))"
  by (induction w arbitrary: i) (auto simp: lits_def occurs_at_Cons)

lemma match_lits_only: "match_at True (lits w) s i = occurs_at s i w"
  using match_lits [of w "[]" s i] by simp

lemma occurs_word_at:
  assumes "occurs_at s i w" and "w \<noteq> []" and "is_word (hd w)"
  shows "word_at s i"
proof -
  from assms(2) have "0 < length w" by simp
  from occurs_at_nth [OF assms(1) this] have "i < length s" "lower_char (s ! i) = lower_char (w ! 0)"
    by simp_all
  moreover have "w ! 0 = hd w" using assms(2) by (simp add: hd_conv_nth)
  ultimately show ?thesis using assms(3) same_fold_is_word [of "s ! i" "hd w"]
    by (simp add: word_at_def)
qed

lemma occurs_word_before:
  assumes "occurs_at s i w" and "w \<noteq> []" and "is_word (last w)"
  shows "word_before s (i + length w)"
proof -
  from assms(2) have k: "length w - 1 < length w" by simp
  from occurs_at_nth [OF assms(1) k]
  have "i + (length w - 1) < length s" "lower_char (s ! (i + (length w - 1))) = lower_char (w ! (length w - 1))"
    by simp_all
  moreover have "w ! (length w - 1) = last w" using assms(2) by (simp add: last_conv_nth)
  moreover have "i + length w - 1 = i + (length w - 1)" using assms(2) by (cases w) simp_all
  ultimately show ?thesis using assms(2,3) same_fold_is_word [of "s ! (i + (length w - 1))" "last w"]
    by (simp add: word_before_def)
qed

lemma match_word:
  assumes "w \<noteq> []" and "is_word (hd w)" and "is_word (last w)"
  shows "match_at True (WordB # lits w @ [WordB]) s i = occurs_as_word s i w"
proof (cases "occurs_at s i w")
  case True
  from occurs_word_at [OF True assms(1,2)] occurs_word_before [OF True assms(1,3)] True
  show ?thesis by (auto simp: match_lits occurs_as_word_def)
next
  case False
  then show ?thesis by (simp add: match_lits occurs_as_word_def)
qed

lemma match_word_start:
  assumes "w \<noteq> []" and "is_word (hd w)"
  shows "match_at True (WordB # lits w) s i = occurs_at_word_start s i w"
proof (cases "occurs_at s i w")
  case True
  from occurs_word_at [OF True assms(1,2)] True
  show ?thesis by (auto simp: match_lits_only occurs_at_word_start_def)
next
  case False
  then show ?thesis by (simp add: match_lits_only occurs_at_word_start_def)
qed

lemma search_word:
  assumes "w \<noteq> []" and "is_word (hd w)" and "is_word (last w)"
  shows "search True (WordB # lits w @ [WordB]) s = (\<exists>i. occurs_as_word s i w)"
proof -
  have "i \<le> length s" if "occurs_as_word s i w" for i
    using that occurs_at_bound [of s i w] assms(1) by (simp add: occurs_as_word_def)
  then show ?thesis
    unfolding search_iff match_word [OF assms] by blast
qed

lemma search_word_start:
  assumes "w \<noteq> []" and "is_word (hd w)"
  shows "search True (WordB # lits w) s = (\<exists>i. occurs_at_word_start s i w)"
proof -
  have "i \<le> length s" if "occurs_at_word_start s i w" for i
    using that occurs_at_bound [of s i w] assms(1) by (simp add: occurs_at_word_start_def)
  then show ?thesis
    unfolding search_iff match_word_start [OF assms] by blast
qed

lemma search_lits:
  assumes "w \<noteq> []"
  shows "search True (lits w) s = (\<exists>i. occurs_at s i w)"
proof -
  have "i \<le> length s" if "occurs_at s i w" for i
    using that occurs_at_bound [of s i w] assms(1) by simp
  then show ?thesis
    unfolding search_iff match_lits_only by blast
qed

section \<open>The tag pattern\<close>

lemma in_set_not_gt [simp]: "in_set True [Single CHR ''>''] = (\<lambda>c. c \<noteq> CHR ''>'')"
  by (rule ext) (simp add: in_set_def)

lemma match_xml:
  "match_at False XML_TAG_PATTERN s i =
     (i < length s \<and> s ! i = CHR ''<'' \<and>
      (\<exists>n. 1 \<le> n \<and> n \<le> length (takeWhile (\<lambda>c. c \<noteq> CHR ''>'') (drop (Suc i) s)) \<and>
           Suc i + n < length s \<and> s ! (Suc i + n) = CHR ''>''))"
proof -
  have "set [1 ..< Suc m] = {n. 1 \<le> n \<and> n \<le> m}" for m :: nat by auto
  then show ?thesis
    unfolding XML_TAG_PATTERN_def by (simp add: list_ex_iff)
qed

lemma run_prefix:
  assumes "n \<le> length (takeWhile P xs)"
  shows "\<forall>x\<in>set (take n xs). P x"
proof -
  have "take n xs = take n (takeWhile P xs)"
    using assms by (metis takeWhile_eq_take take_take min.absorb1)
  then show ?thesis
    by (metis in_set_takeD set_takeWhileD)
qed

lemma prefix_run:
  assumes "\<forall>x\<in>set (take n xs). P x" and "n \<le> length xs"
  shows "n \<le> length (takeWhile P xs)"
proof -
  have "takeWhile P (take n xs @ drop n xs) = take n xs @ takeWhile P (drop n xs)"
    using assms(1) by (intro takeWhile_append2) blast
  then have "length (takeWhile P xs) = length (take n xs) + length (takeWhile P (drop n xs))"
    by (simp only: append_take_drop_id length_append)
  with assms(2) show ?thesis by simp
qed

lemma search_xml_iff:
  "search False XML_TAG_PATTERN s = (\<exists>i j. tag_shaped s i j \<and> Suc i < j)"
proof
  assume "search False XML_TAG_PATTERN s"
  then obtain i n where i: "i < length s" "s ! i = CHR ''<''" and n: "1 \<le> n"
    "n \<le> length (takeWhile (\<lambda>c. c \<noteq> CHR ''>'') (drop (Suc i) s))"
    "Suc i + n < length s" "s ! (Suc i + n) = CHR ''>''"
    unfolding search_iff match_xml by blast
  from run_prefix [OF n(2)] have "CHR ''>'' \<notin> set (take n (drop (Suc i) s))" by blast
  with i n have "tag_shaped s i (Suc i + n)" by (simp add: tag_shaped_def)
  moreover have "Suc i < Suc i + n" using n(1) by simp
  ultimately show "\<exists>i j. tag_shaped s i j \<and> Suc i < j" by blast
next
  assume "\<exists>i j. tag_shaped s i j \<and> Suc i < j"
  then obtain i j where t: "i < j" "j < length s" "s ! i = CHR ''<''" "s ! j = CHR ''>''"
    "CHR ''>'' \<notin> set (take (j - Suc i) (drop (Suc i) s))" and far: "Suc i < j"
    unfolding tag_shaped_def by blast
  let ?n = "j - Suc i"
  have "\<forall>x\<in>set (take ?n (drop (Suc i) s)). x \<noteq> CHR ''>''" using t(5) by blast
  moreover have "?n \<le> length (drop (Suc i) s)" using t(2) by simp
  ultimately have "?n \<le> length (takeWhile (\<lambda>c. c \<noteq> CHR ''>'') (drop (Suc i) s))"
    by (rule prefix_run)
  moreover have "1 \<le> ?n" "Suc i + ?n = j" using far by simp_all
  ultimately have "match_at False XML_TAG_PATTERN s i"
    unfolding match_xml using t by (metis less_trans)
  moreover have "i \<le> length s" using t by simp
  ultimately show "search False XML_TAG_PATTERN s" unfolding search_iff by blast
qed

section \<open>The name pattern\<close>

lemma name_char_in_set:
  "name_char c \<Longrightarrow>
   in_set False [Range CHR ''a'' CHR ''z'', Range CHR ''0'' CHR ''9'', Single CHR ''-''] c"
proof -
  assume "name_char c"
  then have "c \<in> set ''abcdefghijklmnopqrstuvwxyz0123456789-''"
    by (simp only: name_char_def)
  then show ?thesis
    by (simp only: set_simps insert_iff empty_iff, elim disjE) (simp_all add: in_set_def ord_def)
qed

lemma match_name_chars:
  assumes "s \<noteq> []" and "\<forall>c\<in>set s. name_char c"
  shows "match False NAME_PATTERN s"
proof -
  let ?items = "[Range CHR ''a'' CHR ''z'', Range CHR ''0'' CHR ''9'', Single CHR ''-'']"
  have tw: "takeWhile (in_set False ?items) (drop 0 s) = s"
    using assms(2) name_char_in_set by simp
  have mem: "length s \<in> set [1 ..< Suc (length s)]"
    using assms(1) by (cases s) auto
  have "match_at False [Eol] s (0 + length s)" by simp
  with mem have ex: "list_ex (\<lambda>n. match_at False [Eol] s (0 + n)) [1 ..< Suc (length s)]"
    unfolding list_ex_iff by blast
  have "match_at False [Plus False ?items, Eol] s 0"
    by (subst match_at.simps) (simp only: tw ex)
  then show ?thesis
    unfolding match_def NAME_PATTERN_def by (subst match_at.simps) simp
qed

lemma not_name_char_lt: "\<not> name_char CHR ''<''"
  by (simp add: name_char_def)

lemma name_char_no_lt: "\<forall>c\<in>set s. name_char c \<Longrightarrow> CHR ''<'' \<notin> set s"
  using not_name_char_lt by blast

lemma tag_shaped_lt: "tag_shaped s i j \<Longrightarrow> CHR ''<'' \<in> set s"
proof -
  assume "tag_shaped s i j"
  then have "i < length s" "s ! i = CHR ''<''" by (simp_all add: tag_shaped_def)
  then show ?thesis using nth_mem by fastforce
qed

section \<open>Messages are told apart\<close>

lemma first_person_msg_distinct:
  "first_person_msg \<noteq> desc_required_msg" "desc_length_msg n \<noteq> first_person_msg"
  "first_person_msg \<noteq> desc_xml_msg" "first_person_msg \<noteq> second_person_msg"
  "first_person_msg \<noteq> when_msg"
  by (simp_all add: first_person_msg_def desc_required_msg_def desc_length_msg_def
      desc_xml_msg_def second_person_msg_def when_msg_def)

lemma second_person_msg_distinct:
  "second_person_msg \<noteq> desc_required_msg" "desc_length_msg n \<noteq> second_person_msg"
  "second_person_msg \<noteq> desc_xml_msg" "second_person_msg \<noteq> first_person_msg"
  "second_person_msg \<noteq> when_msg"
  by (simp_all add: first_person_msg_def desc_required_msg_def desc_length_msg_def
      desc_xml_msg_def second_person_msg_def when_msg_def)

lemma desc_xml_msg_distinct:
  "desc_xml_msg \<noteq> desc_required_msg" "desc_length_msg n \<noteq> desc_xml_msg"
  "desc_xml_msg \<noteq> first_person_msg" "desc_xml_msg \<noteq> second_person_msg"
  "desc_xml_msg \<noteq> when_msg"
  by (simp_all add: first_person_msg_def desc_required_msg_def desc_length_msg_def
      desc_xml_msg_def second_person_msg_def when_msg_def)

lemma name_xml_msg_distinct:
  "name_xml_msg \<noteq> name_required_msg" "name_length_msg n \<noteq> name_xml_msg"
  "name_xml_msg \<noteq> name_chars_msg" "reserved_msg w \<noteq> name_xml_msg"
  by (simp_all add: name_xml_msg_def name_required_msg_def name_length_msg_def
      name_chars_msg_def reserved_msg_def)

lemma reserved_msg_distinct:
  "reserved_msg w \<noteq> name_required_msg" "name_length_msg n \<noteq> reserved_msg w"
  "name_chars_msg \<noteq> reserved_msg w" "name_xml_msg \<noteq> reserved_msg w"
  by (simp_all add: name_xml_msg_def name_required_msg_def name_length_msg_def
      name_chars_msg_def reserved_msg_def)

lemma reserved_msg_inj: "(reserved_msg w = reserved_msg w') = (w = w')"
  by (simp add: reserved_msg_def)

section \<open>The person loops\<close>

lemma person_errors_eq:
  "person_errors ps d msg = (if \<exists>p\<in>set ps. search True p d then [msg] else [])"
  by (induction ps) simp_all

lemma count_first_person:
  "count_list (validate_description d) first_person_msg =
     (if d \<noteq> [] \<and> (\<exists>p\<in>set first_person_patterns. search True p d) then 1 else 0)"
  using first_person_msg_distinct
  by (simp add: validate_description_def person_errors_eq)

lemma count_second_person:
  "count_list (validate_description d) second_person_msg =
     (if d \<noteq> [] \<and> (\<exists>p\<in>set second_person_patterns. search True p d) then 1 else 0)"
  using second_person_msg_distinct
  by (simp add: validate_description_def person_errors_eq)

lemma desc_xml_iff:
  "(desc_xml_msg \<in> set (validate_description d)) = search False XML_TAG_PATTERN d"
proof (cases "d = []")
  case True
  then show ?thesis
    using desc_xml_msg_distinct(1) by (simp add: validate_description_def search_xml_iff tag_shaped_def)
next
  case False
  then show ?thesis
    using desc_xml_msg_distinct desc_xml_msg_distinct [symmetric]
    by (auto simp: validate_description_def person_errors_eq)
qed

lemma reserved_errors_no_xml: "name_xml_msg \<notin> set (reserved_errors v ws)"
  using reserved_msg_distinct(4) by (induction ws) simp_all

lemma name_xml_iff:
  "(name_xml_msg \<in> set (validate_name v)) = search False XML_TAG_PATTERN v"
proof (cases "v = []")
  case True
  then show ?thesis
    using name_xml_msg_distinct(1) by (simp add: validate_name_def search_xml_iff tag_shaped_def)
next
  case False
  then show ?thesis
    using name_xml_msg_distinct name_xml_msg_distinct [symmetric]
      reserved_errors_no_xml [of v RESERVED_WORDS]
    by (auto simp: validate_name_def)
qed

text \<open>
  Claim C7. The first-person scan adds its error at most once, exactly when some
  first-person pattern is found; the second-person scan does the same with its own
  patterns and its own, different error; so both errors can appear for one description.
\<close>

theorem person_scans_first_match_only:
  "count_list (validate_description d) first_person_msg =
     (if d \<noteq> [] \<and> (\<exists>p\<in>set first_person_patterns. search True p d) then 1 else 0) \<and>
   count_list (validate_description d) second_person_msg =
     (if d \<noteq> [] \<and> (\<exists>p\<in>set second_person_patterns. search True p d) then 1 else 0) \<and>
   first_person_msg \<noteq> second_person_msg"
  using count_first_person count_second_person first_person_msg_distinct(4) by simp

lemma both_persons_eval:
  "validate_description ''I'm sure my script helps me and you when you're stuck'' =
     [first_person_msg, second_person_msg, when_msg]"
  by code_simp

theorem person_scans_first_match_only_witness:
  "count_list (validate_description ''I'm sure my script helps me and you when you're stuck'')
     first_person_msg = 1 \<and>
   count_list (validate_description ''I'm sure my script helps me and you when you're stuck'')
     second_person_msg = 1"
  using person_scans_first_match_only [of "''I'm sure my script helps me and you when you're stuck''"] both_persons_eval
  by (simp split: if_splits)

text \<open>
  Claim C10. The markup check of the name and of the description fires exactly when some
  tag-shaped part of the value has at least one character between \<open><\<close> and \<open>>\<close>; so
  a value whose only tag-shaped parts are the two characters \<open><>\<close> gets no markup error.
\<close>

theorem empty_tag_no_markup_error:
  "(name_xml_msg \<in> set (validate_name v)) = (\<exists>i j. tag_shaped v i j \<and> Suc i < j) \<and>
   (desc_xml_msg \<in> set (validate_description v)) = (\<exists>i j. tag_shaped v i j \<and> Suc i < j) \<and>
   ((\<forall>i j. tag_shaped v i j \<longrightarrow> j = Suc i) \<longrightarrow>
      name_xml_msg \<notin> set (validate_name v) \<and> desc_xml_msg \<notin> set (validate_description v))"
  unfolding name_xml_iff desc_xml_iff search_xml_iff by auto

lemma only_empty_tag: "tag_shaped ''a<>b'' i j \<Longrightarrow> j = Suc i"
proof -
  assume t: "tag_shaped ''a<>b'' i j"
  then have b: "i < j" "j < 4" and c: "''a<>b'' ! i = CHR ''<''" "''a<>b'' ! j = CHR ''>''"
    by (simp_all add: tag_shaped_def)
  from b have "j = 1 \<or> j = 2 \<or> j = 3" by arith
  with c(2) have j: "j = 2" by auto
  with b have "i = 0 \<or> i = 1" by arith
  with c(1) have "i = 1" by auto
  with j show ?thesis by simp
qed

theorem empty_tag_no_markup_error_witness:
  "tag_shaped ''a<>b'' 1 2 \<and> name_xml_msg \<notin> set (validate_name ''a<>b'') \<and>
   desc_xml_msg \<notin> set (validate_description ''a<>b'')"
proof -
  have "\<forall>i j. tag_shaped ''a<>b'' i j \<longrightarrow> j = Suc i" using only_empty_tag by blast
  moreover have "tag_shaped ''a<>b'' 1 2" by (simp add: tag_shaped_def)
  ultimately show ?thesis using empty_tag_no_markup_error [of "''a<>b''"] by blast
qed

section \<open>Reserved words\<close>

lemma contains_iff_sublist: "contains w s = sublist w s"
  by (induction s) (simp_all add: sublist_Cons_right)

lemma count_reserved_msg:
  assumes "v \<noteq> []"
  shows "count_list (validate_name v) (reserved_msg w) =
           count_list (reserved_errors v RESERVED_WORDS) (reserved_msg w)"
  using assms reserved_msg_distinct reserved_msg_distinct [symmetric]
  by (simp add: validate_name_def)

text \<open>
  Claim C4, amended. For every non-empty name and every reserved word, the name validator
  gives exactly one error naming that word when the word occurs in the lowercased name,
  however often it occurs there, and none otherwise.
\<close>

theorem reserved_word_one_error_per_word:
  assumes "v \<noteq> []" and "w \<in> set RESERVED_WORDS"
  shows "count_list (validate_name v) (reserved_msg w) = (if sublist w (lower v) then 1 else 0)"
proof -
  from assms(2) have "w = ''anthropic'' \<or> w = ''claude''" by (simp add: RESERVED_WORDS_def)
  then have "count_list (reserved_errors v RESERVED_WORDS) (reserved_msg w)
      = (if contains w (lower v) then 1 else 0)"
    by (auto simp: RESERVED_WORDS_def reserved_msg_inj simp del: contains.simps)
  then show ?thesis
    using count_reserved_msg [OF assms(1)] by (simp only: contains_iff_sublist)
qed

text \<open>
  A name with the same reserved word at two places gets one error for it, not two.
\<close>

theorem reserved_word_twice_counterexample:
  "occurs_at ''claude-claude'' 0 ''claude'' \<and> occurs_at ''claude-claude'' 7 ''claude'' \<and>
   validate_name ''claude-claude'' = [reserved_msg ''claude'']"
  by code_simp

theorem reserved_word_one_error_per_word_witness:
  "count_list (validate_name ''claude-claude'') (reserved_msg ''claude'') = 1 \<and>
   count_list (validate_name ''pdf-tools'') (reserved_msg ''claude'') = 0"
proof -
  have a: "sublist ''claude'' (lower ''claude-claude'')"
    unfolding contains_iff_sublist [symmetric] by code_simp
  have b: "\<not> sublist ''claude'' (lower ''pdf-tools'')"
    unfolding contains_iff_sublist [symmetric] by code_simp
  show ?thesis
    using reserved_word_one_error_per_word [of "''claude-claude''" "''claude''"] reserved_word_one_error_per_word [of "''pdf-tools''" "''claude''"] a b
    by (simp add: RESERVED_WORDS_def)
qed

section \<open>The first-person scan\<close>

lemma first_person_iff:
  "(first_person_msg \<in> set (validate_description d)) =
     (d \<noteq> [] \<and> (\<exists>p\<in>set first_person_patterns. search True p d))"
proof -
  have "(first_person_msg \<in> set (validate_description d)) =
          (0 < count_list (validate_description d) first_person_msg)"
    using count_list_0_iff [of "validate_description d" first_person_msg] by auto
  then show ?thesis unfolding count_first_person by simp
qed

lemma is_word_letters:
  "is_word CHR ''I''" "is_word CHR ''m''" "is_word CHR ''y''" "is_word CHR ''e''"
  by (simp_all add: is_word_def ord_def)

lemma first_person_patterns_search:
  "(\<exists>p\<in>set first_person_patterns. search True p d) =
     (\<exists>i. occurs_as_word d i ''I'' \<or> occurs_as_word d i ''my'' \<or> occurs_as_word d i ''me'' \<or>
          occurs_at d i ''I'm'' \<or> occurs_at d i ''I'll'')"
proof -
  have p1: "[WordB, Lit CHR ''I'', WordB] = WordB # lits ''I'' @ [WordB]"
    by (simp add: lits_def)
  have "search True [WordB, Lit CHR ''I'', WordB] d = (\<exists>i. occurs_as_word d i ''I'')"
    unfolding p1 using is_word_letters by (intro search_word) simp_all
  moreover have "search True (WordB # lits ''my'' @ [WordB]) d = (\<exists>i. occurs_as_word d i ''my'')"
    using is_word_letters by (intro search_word) simp_all
  moreover have "search True (WordB # lits ''me'' @ [WordB]) d = (\<exists>i. occurs_as_word d i ''me'')"
    using is_word_letters by (intro search_word) simp_all
  moreover have "search True (lits ''I'm'') d = (\<exists>i. occurs_at d i ''I'm'')"
    by (intro search_lits) simp
  moreover have "search True (lits ''I'll'') d = (\<exists>i. occurs_at d i ''I'll'')"
    by (intro search_lits) simp
  ultimately show ?thesis
    unfolding first_person_patterns_def by (simp only: list.set bex_simps Bex_def insert_iff empty_iff) blast
qed

lemma occurs_at_lower: "occurs_at (lower d) i w = occurs_at d i w"
proof -
  have "lower_char \<circ> lower_char = lower_char"
    by (rule ext) (simp add: lower_char_idem)
  then show ?thesis
    by (simp add: occurs_at_def lower_def take_map drop_map)
qed

lemma word_at_lower: "word_at (lower d) i = word_at d i"
  by (auto simp: word_at_def lower_def is_word_lower_char)

lemma word_before_lower: "word_before (lower d) i = word_before d i"
  by (auto simp: word_before_def lower_def is_word_lower_char)

text \<open>
  Claim C3, amended. All five first-person patterns are matched without regard to case:
  the error appears exactly when \<open>I\<close>, \<open>my\<close> or \<open>me\<close> occurs in some case between word
  boundaries or \<open>I'm\<close> or \<open>I'll\<close> occurs in some case anywhere, and lowercasing the
  description never changes whether it appears.
\<close>

theorem first_person_scan_ignores_case:
  "(first_person_msg \<in> set (validate_description d)) =
     (d \<noteq> [] \<and>
      (\<exists>i. occurs_as_word d i ''I'' \<or> occurs_as_word d i ''my'' \<or> occurs_as_word d i ''me'' \<or>
           occurs_at d i ''I'm'' \<or> occurs_at d i ''I'll'')) \<and>
   (first_person_msg \<in> set (validate_description (lower d))) =
     (first_person_msg \<in> set (validate_description d))"
proof -
  have "(lower d = []) = (d = [])" by (simp add: lower_def)
  then show ?thesis
    unfolding first_person_iff first_person_patterns_search
    by (simp add: occurs_as_word_def occurs_at_lower word_at_lower word_before_lower)
qed

text \<open>
  A description whose only first-person word is a standalone lowercase \<open>i\<close>, which the
  pattern for \<open>I\<close> does not match when case is told apart, still gets the first-person error.
\<close>

theorem lowercase_i_counterexample:
  "occurs_as_word ''Notes i wrote. Use when testing.'' 6 ''i'' \<and>
   \<not> search False [WordB, Lit CHR ''I'', WordB] ''Notes i wrote. Use when testing.'' \<and>
   list_all (\<lambda>p. \<not> search True p ''Notes i wrote. Use when testing.'') (tl first_person_patterns) \<and>
   validate_description ''Notes i wrote. Use when testing.'' = [first_person_msg]"
  by code_simp

theorem first_person_scan_ignores_case_witness:
  "first_person_msg \<in> set (validate_description ''Notes i wrote. Use when testing.'') \<and>
   first_person_msg \<in> set (validate_description (lower ''Notes I wrote. Use when testing.''))"
proof -
  have "occurs_as_word ''Notes i wrote. Use when testing.'' 6 ''I''" by code_simp
  moreover have "lower ''Notes I wrote. Use when testing.'' = lower ''Notes i wrote. Use when testing.''"
    by code_simp
  ultimately show ?thesis
    using first_person_scan_ignores_case [of "''Notes i wrote. Use when testing.''"] by auto
qed

section \<open>A compliant document\<close>

lemma is_word_you: "is_word CHR ''y''" "is_word CHR ''u''" "is_word CHR ''r''"
  by (simp_all add: is_word_def ord_def)

lemma second_person_patterns_search:
  "(\<exists>p\<in>set second_person_patterns. search True p d) =
     (\<exists>i. occurs_as_word d i ''you'' \<or> occurs_as_word d i ''your'' \<or>
          occurs_at_word_start d i ''you're'' \<or> occurs_at_word_start d i ''you'll'')"
proof -
  have "search True (WordB # lits ''you'' @ [WordB]) d = (\<exists>i. occurs_as_word d i ''you'')"
    using is_word_you by (intro search_word) simp_all
  moreover have "search True (WordB # lits ''your'' @ [WordB]) d = (\<exists>i. occurs_as_word d i ''your'')"
    using is_word_you by (intro search_word) simp_all
  moreover have "search True (WordB # lits ''you're'') d = (\<exists>i. occurs_at_word_start d i ''you're'')"
    using is_word_you by (intro search_word_start) simp_all
  moreover have "search True (WordB # lits ''you'll'') d = (\<exists>i. occurs_at_word_start d i ''you'll'')"
    using is_word_you by (intro search_word_start) simp_all
  ultimately show ?thesis
    unfolding second_person_patterns_def by (simp only: list.set bex_simps Bex_def insert_iff empty_iff) blast
qed

lemma validate_name_ok:
  assumes "v \<noteq> []" and "length v \<le> 64" and "\<forall>c\<in>set v. name_char c"
    and "\<forall>w\<in>set RESERVED_WORDS. \<not> sublist w (lower v)"
  shows "validate_name v = []"
proof -
  have "match False NAME_PATTERN v" using assms(1,3) by (rule match_name_chars)
  moreover have "\<not> search False XML_TAG_PATTERN v"
    unfolding search_xml_iff using name_char_no_lt [OF assms(3)] tag_shaped_lt by blast
  moreover have "reserved_errors v RESERVED_WORDS = []"
    using assms(4) by (simp add: RESERVED_WORDS_def contains_iff_sublist del: contains.simps)
  ultimately show ?thesis
    using assms(1,2) by (simp add: validate_name_def MAX_NAME_LENGTH_def)
qed

lemma validate_description_ok:
  assumes "d \<noteq> []" and "length d \<le> 1024"
    and "\<not> (\<exists>i j. tag_shaped d i j \<and> Suc i < j)"
    and "\<not> (\<exists>p\<in>set first_person_patterns. search True p d)"
    and "\<not> (\<exists>p\<in>set second_person_patterns. search True p d)"
    and "\<exists>phrase\<in>set when_phrases. sublist phrase (lower d)"
  shows "validate_description d = []"
proof -
  have "\<not> search False XML_TAG_PATTERN d" unfolding search_xml_iff using assms(3) .
  moreover have "has_when_indicator d"
    using assms(6) by (simp only: has_when_indicator_def list_ex_iff contains_iff_sublist)
  ultimately show ?thesis
    using assms(1,2,4,5)
    by (simp add: validate_description_def MAX_DESCRIPTION_LENGTH_def person_errors_eq)
qed

text \<open>
  Claim C2, amended. For every file whose document satisfies every rule (well-formed
  frontmatter; a name that is non-empty, at most 64 characters, made of lowercase
  letters, digits and hyphens, so free of tags, and without a reserved word; a
  description that is non-empty, at most 1024 characters, without a tag, without a first-
  or second-person pattern in any case, and with a guidance phrase; at most 500 non-blank
  body lines), validation returns no error; it returns no warning when the file is named
  \<^verbatim>\<open>SKILL.md\<close>, and exactly the filename warning under any other name.
\<close>

theorem compliant_skill_file_passes:
  assumes "exists p" and "read_text p = Inr content"
    and "well_formed content header body"
    and "v = get (parse_frontmatter (join [newline] header)) ''name''"
    and "d = get (parse_frontmatter (join [newline] header)) ''description''"
    and "v \<noteq> []" and "length v \<le> 64" and "\<forall>c\<in>set v. name_char c"
    and "\<forall>w\<in>set RESERVED_WORDS. \<not> sublist w (lower v)"
    and "d \<noteq> []" and "length d \<le> 1024"
    and "\<not> (\<exists>i j. tag_shaped d i j \<and> Suc i < j)"
    and "\<not> (\<exists>i. occurs_as_word d i ''I'' \<or> occurs_as_word d i ''my'' \<or> occurs_as_word d i ''me'' \<or>
          occurs_at d i ''I'm'' \<or> occurs_at d i ''I'll'')"
    and "\<not> (\<exists>i. occurs_as_word d i ''you'' \<or> occurs_as_word d i ''your'' \<or>
          occurs_at_word_start d i ''you're'' \<or> occurs_at_word_start d i ''you'll'')"
    and "\<exists>phrase\<in>set when_phrases. sublist phrase (lower d)"
    and "length (filter (\<lambda>l. \<not> blank l) body) \<le> 500"
  shows "validate_skill filepath p =
           ([], if name p = ''SKILL.md'' then [] else [filename_msg (name p)])"
proof -
  have ex: "extract_frontmatter content = Inr (join [newline] header)"
    using assms(3) by (rule well_formed_extract)
  have cnt: "count_lines content = length (filter (\<lambda>l. \<not> blank l) body)"
    using assms(3) by (rule well_formed_count)
  have n: "validate_name v = []"
    using assms(6-9) by (rule validate_name_ok)
  have "validate_description d = []"
    using assms(10-12) assms(13) [folded first_person_patterns_search]
      assms(14) [folded second_person_patterns_search] assms(15)
    by (rule validate_description_ok)
  with n show ?thesis
    using assms(1,2) assms(4,5) assms(16) ex cnt
    by (simp add: validate_skill_def Let_def)
qed

lemma well_formed_example_skill:
  "well_formed example_skill example_header [''# PDF tools'', [], ''Run the script.'']"
proof -
  have "example_skill = join [newline]
      (''---'' # example_header @ ''---'' # [''# PDF tools'', [], ''Run the script.''])"
    by (simp add: example_skill_def)
  moreover have "well_formed (join [newline]
      (''---'' # example_header @ ''---'' # [''# PDF tools'', [], ''Run the script.'']))
      example_header [''# PDF tools'', [], ''Run the script.'']"
    using example_header_lines by (intro well_formed_join) (auto simp: newline_def)
  ultimately show ?thesis by simp
qed

lemma example_fields:
  "get (parse_frontmatter (join [newline] example_header)) ''name'' = ''pdf-tools''"
  "get (parse_frontmatter (join [newline] example_header)) ''description'' =
     ''Extracts text from PDF files. Use when reading PDF documents.''"
  by code_simp+

lemma no_lt_no_tag: "CHR ''<'' \<notin> set s \<Longrightarrow> \<not> (\<exists>i j. tag_shaped s i j \<and> Suc i < j)"
  using tag_shaped_lt by blast

theorem compliant_skill_file_passes_witness:
  "validate_skill ''skills/pdf/SKILL.md'' (skill_file ''SKILL.md'' example_skill) = ([], []) \<and>
   validate_skill ''skills/pdf/README.md'' (skill_file ''README.md'' example_skill) =
     ([], [filename_msg ''README.md''])"
proof -
  let ?d = "''Extracts text from PDF files. Use when reading PDF documents.''"
  let ?body = "[''# PDF tools'', [], ''Run the script.'']"
  have a: "\<forall>c\<in>set ''pdf-tools''. name_char c" by (simp add: name_char_def)
  have b: "\<forall>w\<in>set RESERVED_WORDS. \<not> sublist w (lower ''pdf-tools'')"
    unfolding contains_iff_sublist [symmetric] by code_simp
  have c: "\<not> (\<exists>i j. tag_shaped ?d i j \<and> Suc i < j)" by (rule no_lt_no_tag) simp
  have d: "\<not> (\<exists>i. occurs_as_word ?d i ''I'' \<or> occurs_as_word ?d i ''my'' \<or> occurs_as_word ?d i ''me'' \<or>
          occurs_at ?d i ''I'm'' \<or> occurs_at ?d i ''I'll'')"
    unfolding first_person_patterns_search [symmetric] by code_simp
  have e: "\<not> (\<exists>i. occurs_as_word ?d i ''you'' \<or> occurs_as_word ?d i ''your'' \<or>
          occurs_at_word_start ?d i ''you're'' \<or> occurs_at_word_start ?d i ''you'll'')"
    unfolding second_person_patterns_search [symmetric] by code_simp
  have f: "\<exists>phrase\<in>set when_phrases. sublist phrase (lower ?d)"
    unfolding contains_iff_sublist [symmetric] by code_simp
  have g: "length (filter (\<lambda>l. \<not> blank l) ?body) \<le> 500"
    by simp
  have named: "validate_skill ''skills/pdf/SKILL.md'' (skill_file ''SKILL.md'' example_skill) = ([], [])"
    using compliant_skill_file_passes [of "skill_file ''SKILL.md'' example_skill" example_skill
        example_header ?body "''pdf-tools''" ?d "''skills/pdf/SKILL.md''",
        OF _ _ well_formed_example_skill _ _ _ _ a b _ _ c d e f g]
    by (simp add: skill_file_def example_fields)
  have other: "validate_skill ''skills/pdf/README.md'' (skill_file ''README.md'' example_skill) =
      ([], [filename_msg ''README.md''])"
    using compliant_skill_file_passes [of "skill_file ''README.md'' example_skill" example_skill
        example_header ?body "''pdf-tools''" ?d "''skills/pdf/README.md''",
        OF _ _ well_formed_example_skill _ _ _ _ a b _ _ c d e f g]
    by (simp add: skill_file_def example_fields)
  from named other show ?thesis by (rule conjI)
qed

text \<open>
  The same compliant document in a file of another name gets the filename warning.
\<close>

theorem compliant_document_other_name_counterexample:
  "validate_skill ''notes.md'' (skill_file ''notes.md'' example_skill) =
     ([], [filename_msg ''notes.md''])"
  by code_simp

end
